theory Spec2Isabelle
  imports Main "HOL-Library.Word"
begin

section \<open>util: the ReadyChannel\<close>

text \<open>
  \<^verbatim>\<open>type ReadyChannel struct { ch chan bool; receivedYet bool; firstValue bool; mutex *sync.Mutex }\<close>

  The channel \<open>ch\<close> is made with capacity 1, so its contents are at most one boolean:
  \<open>None\<close> is the empty buffer. The mutex is held for the whole of \<open>Receive\<close>, and
  \<open>Send\<close> is a single non-blocking channel operation, so every run of the goroutines is an
  interleaving of whole \<open>Send\<close>s and whole \<open>Receive\<close>s; a \<open>Receive\<close> takes effect at
  the moment it returns. A \<open>Receive\<close> that finds nothing to return is blocked on
  \<open><-t.ch\<close>: the model gives \<open>None\<close> and leaves the state as it is.
\<close>

record ReadyChannel =
  ch :: "bool option"
  receivedYet :: bool
  firstValue :: bool

text \<open>The struct that \<open>NewReadyChannel\<close> allocates (its timer is modelled further down).\<close>

definition newChannel :: ReadyChannel where
  "newChannel = \<lparr>ch = None, receivedYet = False, firstValue = False\<rparr>"

text \<open>\<open>select { case t.ch <- value: default: }\<close>\<close>

definition Send :: "bool \<Rightarrow> ReadyChannel \<Rightarrow> ReadyChannel" where
  "Send v t = (case ch t of None \<Rightarrow> t\<lparr>ch := Some v\<rparr> | Some _ \<Rightarrow> t)"

definition Receive :: "ReadyChannel \<Rightarrow> (bool \<times> ReadyChannel) option" where
  "Receive t =
     (if receivedYet t then Some (firstValue t, t)
      else (case ch t of
              None \<Rightarrow> None
            | Some v \<Rightarrow> Some (v, t\<lparr>ch := None, receivedYet := True, firstValue := v\<rparr>)))"

text \<open>The value a channel is resolved to, if any: what the next \<open>Receive\<close> returns.\<close>

definition resolved :: "ReadyChannel \<Rightarrow> bool option" where
  "resolved t = (if receivedYet t then Some (firstValue t) else ch t)"

text \<open>
  A history of calls on one channel, by any goroutine, in the order in which they take
  effect. \<open>run\<close> gives what each \<open>Receive\<close> of the history returned.
\<close>

datatype rc_call = CallSend bool | CallReceive

fun isReceive :: "rc_call \<Rightarrow> bool" where
  "isReceive CallReceive = True"
| "isReceive (CallSend _) = False"

fun run :: "rc_call list \<Rightarrow> ReadyChannel \<Rightarrow> bool option list \<times> ReadyChannel" where
  "run [] t = ([], t)"
| "run (CallSend v # cs) t = run cs (Send v t)"
| "run (CallReceive # cs) t =
     (case Receive t of
        None \<Rightarrow> (let (rs, t') = run cs t in (None # rs, t'))
      | Some (v, t') \<Rightarrow> (let (rs, t'') = run cs t' in (Some v # rs, t'')))"

subsection \<open>First writer wins\<close>

lemma resolved_Send:
  "resolved (Send v t) = (case resolved t of None \<Rightarrow> Some v | Some w \<Rightarrow> Some w)"
  by (cases "ch t") (simp_all add: resolved_def Send_def)

lemma Receive_resolved:
  "Receive t = (case resolved t of None \<Rightarrow> None | Some v \<Rightarrow> Receive t)"
  by (simp add: Receive_def resolved_def split: option.splits)

lemma Receive_None_iff: "Receive t = None \<longleftrightarrow> resolved t = None"
  by (simp add: Receive_def resolved_def split: option.splits)

lemma Receive_Some:
  assumes "Receive t = Some (v, t')"
  shows "resolved t = Some v" and "resolved t' = Some v"
  using assms by (auto simp: Receive_def resolved_def split: if_splits option.splits)

lemma Receive_of_resolved:
  assumes "resolved t = Some v"
  shows "\<exists>t'. Receive t = Some (v, t') \<and> resolved t' = Some v"
  using assms by (auto simp: Receive_def resolved_def split: if_splits option.splits)

lemma run_resolved:
  assumes "resolved t = Some v"
  shows "fst (run cs t) = map (\<lambda>_. Some v) (filter isReceive cs)
         \<and> resolved (snd (run cs t)) = Some v"
  using assms
proof (induction cs arbitrary: t)
  case Nil
  then show ?case by simp
next
  case (Cons c cs)
  show ?case
  proof (cases c)
    case (CallSend w)
    have "resolved (Send w t) = Some v"
      using Cons.prems by (simp add: resolved_Send)
    from Cons.IH [OF this] show ?thesis
      using CallSend by simp
  next
    case CallReceive
    from Receive_of_resolved [OF Cons.prems]
    obtain t' where r: "Receive t = Some (v, t')" and t': "resolved t' = Some v"
      by blast
    from Cons.IH [OF t'] show ?thesis
      using CallReceive r by (simp add: split_beta)
  qed
qed

lemma run_blocked:
  assumes "resolved t = None"
  shows "run (replicate n CallReceive @ cs) t
         = (replicate n None @ fst (run cs t), snd (run cs t))"
  using assms
  by (induction n) (simp_all add: Receive_None_iff [THEN iffD2] split_beta)

text \<open>
  C1. On a new ReadyChannel, the first value passed to \<open>Send\<close> (by whichever source) is the
  value the channel is resolved to. Every \<open>Receive\<close> that has not returned before that
  \<open>Send\<close> is still blocked (\<open>None\<close>); every \<open>Receive\<close> that returns afterwards returns
  that first value, whatever \<open>Send\<close>s and \<open>Receive\<close>s come in between, so no later
  \<open>Send\<close> changes what any caller sees, and the channel stays resolved to that value.
\<close>

theorem first_Send_wins:
  "fst (run (replicate n CallReceive @ CallSend v # cs) newChannel)
     = replicate n None @ map (\<lambda>_. Some v) (filter isReceive cs)
   \<and> resolved (snd (run (replicate n CallReceive @ CallSend v # cs) newChannel)) = Some v"
proof -
  have fresh: "resolved newChannel = None"
    by (simp add: resolved_def newChannel_def)
  have sent: "resolved (Send v newChannel) = Some v"
    by (simp add: resolved_Send fresh)
  show ?thesis
    using run_resolved [OF sent, of cs] by (simp add: run_blocked [OF fresh])
qed


section \<open>util: combining ready channels\<close>

text \<open>
  \<open>[]*ReadyChannel\<close> is a list of pointers, and the same channel may stand in the list
  twice or be the output channel as well: the channels live in a store, addressed by
  natural numbers. \<open>receiveLoop\<close> is the \<open>for ... range inputChannels\<close> loop of
  \<open>ReceiveReadyChannels\<close> with its local variable \<open>output\<close>; it is blocked (\<open>None\<close>) as
  soon as one \<open>Receive\<close> is.
\<close>

type_synonym store = "nat \<Rightarrow> ReadyChannel"

fun receiveLoop :: "nat list \<Rightarrow> bool \<Rightarrow> store \<Rightarrow> (bool \<times> store) option" where
  "receiveLoop [] output h = Some (output, h)"
| "receiveLoop (a # as) output h =
     (case Receive (h a) of
        None \<Rightarrow> None
      | Some (v, t') \<Rightarrow> receiveLoop as (if \<not> v then False else output) (h(a := t')))"

definition ReceiveReadyChannels :: "nat list \<Rightarrow> store \<Rightarrow> (bool \<times> store) option" where
  "ReceiveReadyChannels inputChannels h = receiveLoop inputChannels True h"

definition CombineReadyChannels :: "nat list \<Rightarrow> nat \<Rightarrow> store \<Rightarrow> store option" where
  "CombineReadyChannels inputChannels outputChannel h =
     (case ReceiveReadyChannels inputChannels h of
        None \<Rightarrow> None
      | Some (output, h') \<Rightarrow> Some (h'(outputChannel := Send output (h' outputChannel))))"

lemma receiveLoop_resolved:
  assumes "\<forall>a\<in>set as. resolved (h a) \<noteq> None"
  shows "\<exists>h'. receiveLoop as outp h
                = Some (outp \<and> (\<forall>a\<in>set as. resolved (h a) = Some True), h')
              \<and> (\<forall>a. resolved (h' a) = resolved (h a))"
  using assms
proof (induction as arbitrary: outp h)
  case Nil
  then show ?case by simp
next
  case (Cons a as)
  from Cons.prems obtain v where v: "resolved (h a) = Some v"
    by auto
  from Receive_of_resolved [OF v]
  obtain t' where r: "Receive (h a) = Some (v, t')" and t': "resolved t' = Some v"
    by blast
  let ?h = "h(a := t')"
  have same: "resolved (?h b) = resolved (h b)" for b
    using v t' by simp
  have "\<forall>b\<in>set as. resolved (?h b) \<noteq> None"
    using Cons.prems same by simp
  from Cons.IH [OF this, of "if \<not> v then False else outp"]
  obtain h' where
    loop: "receiveLoop as (if \<not> v then False else outp) ?h
           = Some ((if \<not> v then False else outp)
                    \<and> (\<forall>b\<in>set as. resolved (?h b) = Some True), h')"
    and keep: "\<forall>b. resolved (h' b) = resolved (?h b)"
    by blast
  have "receiveLoop (a # as) outp h
        = Some (outp \<and> (\<forall>b\<in>set (a # as). resolved (h b) = Some True), h')"
    using r loop v same by (cases v) auto
  moreover have "\<forall>b. resolved (h' b) = resolved (h b)"
    using keep same by simp
  ultimately show ?case by blast
qed

lemma receiveLoop_blocked:
  "receiveLoop as outp h = None \<longleftrightarrow> (\<exists>a\<in>set as. resolved (h a) = None)"
proof (induction as arbitrary: outp h)
  case Nil
  then show ?case by simp
next
  case (Cons a as)
  show ?case
  proof (cases "Receive (h a)")
    case None
    then have "resolved (h a) = None"
      by (simp add: Receive_None_iff)
    with None show ?thesis by simp
  next
    case (Some p)
    obtain v t' where p: "p = (v, t')" by (cases p)
    have v: "resolved (h a) = Some v" and t': "resolved t' = Some v"
      using Receive_Some [of "h a" v t'] Some p by simp_all
    have same: "resolved ((h(a := t')) b) = resolved (h b)" for b
      using v t' by simp
    show ?thesis
      using Some p v by (simp add: Cons.IH same del: fun_upd_apply)
  qed
qed

text \<open>
  C2. \<open>ReceiveReadyChannels\<close> is blocked exactly as long as one of its channels is not
  resolved (\<open>receiveLoop_blocked\<close>). Once every channel of the list is resolved (by an
  event or by its timeout: both are a \<open>Send\<close>), it returns, and it returns true exactly
  when every channel is resolved to true (so false when one of them is resolved to false,
  and true for the empty list); no channel's resolved value changes.
  \<open>CombineReadyChannels\<close> passes exactly that conjunction to \<open>Send\<close> on the output
  channel: an output channel that was not resolved is resolved to it, one that was
  already resolved (say by its own timeout) keeps its value.
\<close>

theorem ReceiveReadyChannels_conjunction:
  assumes "\<forall>a\<in>set inputChannels. resolved (h a) \<noteq> None"
  shows "\<exists>h' h''.
           ReceiveReadyChannels inputChannels h
             = Some ((\<forall>a\<in>set inputChannels. resolved (h a) = Some True), h')
           \<and> (\<forall>a. resolved (h' a) = resolved (h a))
           \<and> CombineReadyChannels inputChannels outputChannel h = Some h''
           \<and> h'' = h'(outputChannel :=
                      Send (\<forall>a\<in>set inputChannels. resolved (h a) = Some True)
                           (h' outputChannel))
           \<and> resolved (h'' outputChannel)
             = (case resolved (h outputChannel) of
                  None \<Rightarrow> Some (\<forall>a\<in>set inputChannels. resolved (h a) = Some True)
                | Some w \<Rightarrow> Some w)"
proof -
  let ?conj = "\<forall>a\<in>set inputChannels. resolved (h a) = Some True"
  from receiveLoop_resolved [OF assms, of True]
  obtain h' where
    r: "ReceiveReadyChannels inputChannels h = Some (?conj, h')"
    and keep: "\<forall>a. resolved (h' a) = resolved (h a)"
    by (auto simp: ReceiveReadyChannels_def)
  define h'' where "h'' = h'(outputChannel := Send ?conj (h' outputChannel))"
  have c: "CombineReadyChannels inputChannels outputChannel h = Some h''"
    using r by (simp add: CombineReadyChannels_def h''_def)
  have s: "resolved (h'' outputChannel)
           = (case resolved (h outputChannel) of None \<Rightarrow> Some ?conj | Some w \<Rightarrow> Some w)"
    using keep by (simp add: h''_def resolved_Send)
  show ?thesis
    apply (rule exI [of _ h'])
    apply (rule exI [of _ h''])
    apply (intro conjI r keep c s)
    apply (rule h''_def)
    done
qed

theorem ReceiveReadyChannels_conjunction_witness:
  "resolved (Send True newChannel) = Some True
   \<and> resolved (Send False newChannel) = Some False
   \<and> (\<exists>h'. ReceiveReadyChannels [0, 1, 0]
               ((\<lambda>_ :: nat. newChannel)(0 := Send True newChannel, 1 := Send False newChannel))
             = Some (False, h'))
   \<and> (\<exists>h''. CombineReadyChannels [0, 1, 0] 2
               ((\<lambda>_ :: nat. newChannel)(0 := Send True newChannel, 1 := Send False newChannel))
             = Some h'' \<and> resolved (h'' 2) = Some False)"
proof -
  let ?h = "(\<lambda>_ :: nat. newChannel)(0 := Send True newChannel, 1 := Send False newChannel)"
  have t: "resolved (Send True newChannel) = Some True"
    and f: "resolved (Send False newChannel) = Some False"
    and n: "resolved newChannel = None"
    by (simp_all add: resolved_def Send_def newChannel_def)
  have pre: "\<forall>a\<in>set [0, 1, 0 :: nat]. resolved (?h a) \<noteq> None"
    using t f by auto
  have conj: "(\<forall>a\<in>set [0, 1, 0 :: nat]. resolved (?h a) = Some True) = False"
    using t f by simp
  have out: "resolved (?h 2) = None"
    using n by simp
  from ReceiveReadyChannels_conjunction [OF pre, of 2]
  obtain h' h'' where
    a: "ReceiveReadyChannels [0, 1, 0] ?h
        = Some ((\<forall>a\<in>set [0, 1, 0 :: nat]. resolved (?h a) = Some True), h')"
    and c: "CombineReadyChannels [0, 1, 0] 2 ?h = Some h''"
    and d: "resolved (h'' 2)
            = (case resolved (?h 2) of
                 None \<Rightarrow> Some (\<forall>a\<in>set [0, 1, 0 :: nat]. resolved (?h a) = Some True)
               | Some w \<Rightarrow> Some w)"
    by blast
  have a': "ReceiveReadyChannels [0, 1, 0] ?h = Some (False, h')"
    using a by (simp only: conj)
  have d': "resolved (h'' 2) = Some False"
    using d by (simp only: conj out option.case)
  show ?thesis
    using t f a' c d' by blast
qed


section \<open>util: the timeout of a ReadyChannel\<close>

text \<open>
  \<open>NewReadyChannel\<close> starts a goroutine that sleeps for the timeout and then calls
  \<open>rc.Send(false)\<close>. Time is a natural number of ticks. A channel in time is the struct,
  the instant \<open>wakeAt\<close> at which the sleeping goroutine wakes, whether it has run its
  \<open>Send\<close> (\<open>timerDone\<close>), and the present instant \<open>clock\<close>. The goroutine runs as soon
  as the clock reaches \<open>wakeAt\<close>: the model has no scheduling delay.
\<close>

record TimedChannel =
  rc :: ReadyChannel
  wakeAt :: nat
  timerDone :: bool
  clock :: nat

definition NewReadyChannel :: "nat \<Rightarrow> nat \<Rightarrow> TimedChannel" where
  "NewReadyChannel timeout now =
     \<lparr>rc = newChannel, wakeAt = now + timeout, timerDone = False, clock = now\<rparr>"

text \<open>\<open>d\<close> ticks pass; the timer goroutine runs if its sleep ends within them.\<close>

definition elapse :: "nat \<Rightarrow> TimedChannel \<Rightarrow> TimedChannel" where
  "elapse d w =
     (if \<not> timerDone w \<and> wakeAt w \<le> clock w + d
      then w\<lparr>rc := Send False (rc w), timerDone := True, clock := clock w + d\<rparr>
      else w\<lparr>clock := clock w + d\<rparr>)"

text \<open>
  What a call of \<open>Receive\<close> returned, and when it was called and when it returned.
  A \<open>Receive\<close> that finds the channel unresolved waits on \<open><-t.ch\<close>; with no other
  sender at work in the meantime it is woken by the timer goroutine, at \<open>wakeAt\<close>. Should
  the timer have run already, nobody is left to wake it (\<open>got = None\<close>).
\<close>

record Returned =
  got :: "bool option"
  calledAt :: nat
  returnedAt :: nat

definition timedReceive :: "TimedChannel \<Rightarrow> Returned \<times> TimedChannel" where
  "timedReceive w =
     (case Receive (rc w) of
        Some (v, t') \<Rightarrow>
          (\<lparr>got = Some v, calledAt = clock w, returnedAt = clock w\<rparr>, w\<lparr>rc := t'\<rparr>)
      | None \<Rightarrow>
          if timerDone w then (\<lparr>got = None, calledAt = clock w, returnedAt = clock w\<rparr>, w)
          else (let w' = elapse (wakeAt w - clock w) w in
                case Receive (rc w') of
                  Some (v, t') \<Rightarrow>
                    (\<lparr>got = Some v, calledAt = clock w, returnedAt = clock w'\<rparr>, w'\<lparr>rc := t'\<rparr>)
                | None \<Rightarrow> (\<lparr>got = None, calledAt = clock w, returnedAt = clock w'\<rparr>, w')))"

datatype timed_call = Wait nat | TSend bool | TReceive

fun isTSend :: "timed_call \<Rightarrow> bool" where
  "isTSend (TSend _) = True"
| "isTSend _ = False"

fun isTReceive :: "timed_call \<Rightarrow> bool" where
  "isTReceive TReceive = True"
| "isTReceive _ = False"

fun trun :: "timed_call list \<Rightarrow> TimedChannel \<Rightarrow> Returned list \<times> TimedChannel" where
  "trun [] w = ([], w)"
| "trun (Wait d # cs) w = trun cs (elapse d w)"
| "trun (TSend v # cs) w = trun cs (w\<lparr>rc := Send v (rc w)\<rparr>)"
| "trun (TReceive # cs) w =
     (let (r, w') = timedReceive w; (rs, w'') = trun cs w' in (r # rs, w''))"

subsection \<open>A channel nobody sends to\<close>

text \<open>
  The states of a channel that only its own timer sends to: the timer is still asleep
  and the channel unresolved, or the timer has run and the channel is resolved to false.
\<close>

definition quiet :: "nat \<Rightarrow> TimedChannel \<Rightarrow> bool" where
  "quiet D w \<longleftrightarrow>
     wakeAt w = D \<and>
     (if timerDone w then resolved (rc w) = Some False \<and> D \<le> clock w
      else resolved (rc w) = None \<and> clock w \<le> D)"

lemma quiet_New: "quiet (now + timeout) (NewReadyChannel timeout now)"
  by (simp add: quiet_def NewReadyChannel_def resolved_def newChannel_def)

lemma quiet_elapse:
  assumes "quiet D w"
  shows "quiet D (elapse d w)" and "clock w \<le> clock (elapse d w)"
  using assms by (auto simp: quiet_def elapse_def resolved_Send split: if_splits)

lemma quiet_timedReceive_conj:
  assumes "quiet D w" and "timedReceive w = (r, w')"
  shows "quiet D w' \<and> got r = Some False \<and> calledAt r = clock w
         \<and> returnedAt r = max (clock w) D \<and> clock w' = max (clock w) D"
proof (cases "timerDone w")
  case True
  with assms(1) have res: "resolved (rc w) = Some False" and le: "D \<le> clock w"
    and wk: "wakeAt w = D"
    by (simp_all add: quiet_def)
  from Receive_of_resolved [OF res]
  obtain t' where t': "Receive (rc w) = Some (False, t')" "resolved t' = Some False"
    by blast
  with assms(2) have "r = \<lparr>got = Some False, calledAt = clock w, returnedAt = clock w\<rparr>"
    and "w' = w\<lparr>rc := t'\<rparr>"
    by (simp_all add: timedReceive_def)
  then show ?thesis
    using True t' le wk by (simp add: quiet_def max_def)
next
  case False
  with assms(1) have res: "resolved (rc w) = None" and le: "clock w \<le> D"
    and wk: "wakeAt w = D"
    by (simp_all add: quiet_def)
  let ?w = "elapse (D - clock w) w"
  have blocked: "Receive (rc w) = None"
    using res by (simp add: Receive_None_iff)
  have e: "?w = w\<lparr>rc := Send False (rc w), timerDone := True, clock := D\<rparr>"
    using False le wk by (simp add: elapse_def)
  have "resolved (rc ?w) = Some False"
    using res by (simp add: e resolved_Send)
  from Receive_of_resolved [OF this]
  obtain t' where t': "Receive (rc ?w) = Some (False, t')" "resolved t' = Some False"
    by blast
  with assms(2) blocked False wk
  have "r = \<lparr>got = Some False, calledAt = clock w, returnedAt = clock ?w\<rparr>"
    and "w' = ?w\<lparr>rc := t'\<rparr>"
    by (simp_all add: timedReceive_def Let_def)
  then show ?thesis
    using t' le wk by (simp add: e quiet_def max_def)
qed

lemma quiet_timedReceive:
  assumes "quiet D w" and "timedReceive w = (r, w')"
  shows "quiet D w'" and "got r = Some False" and "calledAt r = clock w"
    and "returnedAt r = max (clock w) D" and "clock w' = max (clock w) D"
  using quiet_timedReceive_conj [OF assms] by simp_all

lemma trun_quiet:
  assumes "quiet D w" and "\<forall>c\<in>set cs. \<not> isTSend c"
  shows "map got (fst (trun cs w)) = map (\<lambda>_. Some False) (filter isTReceive cs)
         \<and> (\<forall>r\<in>set (fst (trun cs w)).
               clock w \<le> calledAt r \<and> returnedAt r = max (calledAt r) D)"
  using assms
proof (induction cs arbitrary: w)
  case Nil
  then show ?case by simp
next
  case (Cons c cs)
  show ?case
  proof (cases c)
    case (Wait d)
    from quiet_elapse [OF Cons.prems(1), of d]
    have q: "quiet D (elapse d w)" and le: "clock w \<le> clock (elapse d w)"
      by simp_all
    from Cons.IH [OF q] Cons.prems(2) show ?thesis
      using Wait le by fastforce
  next
    case (TSend v)
    with Cons.prems(2) show ?thesis by simp
  next
    case TReceive
    obtain r w' where rw: "timedReceive w = (r, w')"
      by (cases "timedReceive w")
    note f = quiet_timedReceive [OF Cons.prems(1) rw]
    from Cons.IH [OF f(1)] Cons.prems(2)
    have ih: "map got (fst (trun cs w')) = map (\<lambda>_. Some False) (filter isTReceive cs)"
      and ih2: "\<forall>r\<in>set (fst (trun cs w')). clock w' \<le> calledAt r
                  \<and> returnedAt r = max (calledAt r) D"
      by simp_all
    have "clock w \<le> clock w'"
      using f(5) by simp
    with ih2 have "\<forall>r\<in>set (fst (trun cs w')). clock w \<le> calledAt r
                  \<and> returnedAt r = max (calledAt r) D"
      by fastforce
    then show ?thesis
      using TReceive rw ih f(2,3,4) by (simp add: split_beta)
  qed
qed

subsection \<open>A channel that was resolved before its timer ran\<close>

lemma resolved_elapse:
  assumes "resolved (rc w) = Some v"
  shows "resolved (rc (elapse d w)) = Some v"
  using assms by (simp add: elapse_def resolved_Send)

lemma timedReceive_resolved:
  assumes "resolved (rc w) = Some v" and "timedReceive w = (r, w')"
  shows "resolved (rc w') = Some v" and "got r = Some v" and "returnedAt r = calledAt r"
proof -
  from Receive_of_resolved [OF assms(1)]
  obtain t' where t': "Receive (rc w) = Some (v, t')" "resolved t' = Some v"
    by blast
  with assms(2) have "r = \<lparr>got = Some v, calledAt = clock w, returnedAt = clock w\<rparr>"
    and "w' = w\<lparr>rc := t'\<rparr>"
    by (simp_all add: timedReceive_def)
  then show "resolved (rc w') = Some v" "got r = Some v" "returnedAt r = calledAt r"
    using t' by simp_all
qed

lemma trun_resolved:
  assumes "resolved (rc w) = Some v"
  shows "map got (fst (trun cs w)) = map (\<lambda>_. Some v) (filter isTReceive cs)
         \<and> (\<forall>r\<in>set (fst (trun cs w)). returnedAt r = calledAt r)
         \<and> resolved (rc (snd (trun cs w))) = Some v"
  using assms
proof (induction cs arbitrary: w)
  case Nil
  then show ?case by simp
next
  case (Cons c cs)
  show ?case
  proof (cases c)
    case (Wait d)
    from Cons.IH [OF resolved_elapse [OF Cons.prems, of d]] show ?thesis
      using Wait by simp
  next
    case (TSend u)
    have "resolved (rc (w\<lparr>rc := Send u (rc w)\<rparr>)) = Some v"
      using Cons.prems by (simp add: resolved_Send)
    from Cons.IH [OF this] show ?thesis
      using TSend by simp
  next
    case TReceive
    obtain r w' where rw: "timedReceive w = (r, w')"
      by (cases "timedReceive w")
    note f = timedReceive_resolved [OF Cons.prems rw]
    from Cons.IH [OF f(1)] show ?thesis
      using TReceive rw f(2,3) by (simp add: split_beta)
  qed
qed

lemma trun_Waits_asleep:
  assumes "\<not> timerDone w" and "clock w + sum_list ds < wakeAt w"
  shows "trun (map Wait ds @ cs) w = trun cs (w\<lparr>clock := clock w + sum_list ds\<rparr>)"
  using assms
proof (induction ds arbitrary: w)
  case Nil
  then show ?case by simp
next
  case (Cons d ds)
  have e: "elapse d w = w\<lparr>clock := clock w + d\<rparr>"
    using Cons.prems by (simp add: elapse_def)
  have "\<not> timerDone (elapse d w)"
    and "clock (elapse d w) + sum_list ds < wakeAt (elapse d w)"
    using Cons.prems by (simp_all add: e)
  from Cons.IH [OF this]
  have "trun (map Wait ds @ cs) (elapse d w)
        = trun cs (w\<lparr>clock := clock w + d + sum_list ds\<rparr>)"
    by (simp add: e)
  then show ?case
    by (simp add: add.assoc)
qed

lemma trun_Waits:
  assumes "sum_list ds < timeout"
  shows "trun (map Wait ds @ cs) (NewReadyChannel timeout now)
         = trun cs ((NewReadyChannel timeout now)\<lparr>clock := now + sum_list ds\<rparr>)"
proof -
  have "\<not> timerDone (NewReadyChannel timeout now)"
    and "clock (NewReadyChannel timeout now) + sum_list ds
         < wakeAt (NewReadyChannel timeout now)"
    using assms by (simp_all add: NewReadyChannel_def)
  from trun_Waits_asleep [OF this, of cs] show ?thesis
    by (simp add: NewReadyChannel_def)
qed

text \<open>
  C8. A ReadyChannel made with a timeout at instant \<open>now\<close>, to which nobody but its own
  timer sends (the history holds only waits and \<open>Receive\<close>s): every \<open>Receive\<close> returns
  false; it returns at \<open>now + timeout\<close> when it was called before that instant and at
  once when called later, so it is never blocked for longer than the timeout, and the
  channel is not resolved before \<open>now + timeout\<close>. When instead \<open>Send(true)\<close> comes
  before the timer has run (the waits before it add up to less than the timeout), every
  \<open>Receive\<close> after it returns true and returns at once, whatever follows, the timer's
  \<open>Send(false)\<close> included, and the channel stays resolved to true.
\<close>

theorem timeout_resolves_false:
  assumes "\<forall>c\<in>set cs. \<not> isTSend c" and "sum_list ds < timeout"
  shows "map got (fst (trun cs (NewReadyChannel timeout now)))
           = map (\<lambda>_. Some False) (filter isTReceive cs)
         \<and> (\<forall>r\<in>set (fst (trun cs (NewReadyChannel timeout now))).
               returnedAt r = max (calledAt r) (now + timeout)
               \<and> returnedAt r \<le> calledAt r + timeout)
         \<and> map got (fst (trun (map Wait ds @ TSend True # later) (NewReadyChannel timeout now)))
           = map (\<lambda>_. Some True) (filter isTReceive later)
         \<and> (\<forall>r\<in>set (fst (trun (map Wait ds @ TSend True # later)
                               (NewReadyChannel timeout now))).
               returnedAt r = calledAt r)
         \<and> resolved (rc (snd (trun (map Wait ds @ TSend True # later)
                                 (NewReadyChannel timeout now)))) = Some True"
proof -
  let ?new = "NewReadyChannel timeout now"
  from trun_quiet [OF quiet_New assms(1), of timeout now]
  have a: "map got (fst (trun cs ?new)) = map (\<lambda>_. Some False) (filter isTReceive cs)"
    and b: "\<forall>r\<in>set (fst (trun cs ?new)).
              clock ?new \<le> calledAt r \<and> returnedAt r = max (calledAt r) (now + timeout)"
    by simp_all
  have "clock ?new = now"
    by (simp add: NewReadyChannel_def)
  with b have b': "\<forall>r\<in>set (fst (trun cs ?new)).
      returnedAt r = max (calledAt r) (now + timeout) \<and> returnedAt r \<le> calledAt r + timeout"
    by fastforce
  let ?w = "(?new\<lparr>clock := now + sum_list ds\<rparr>)\<lparr>rc := Send True (rc (?new\<lparr>clock := now + sum_list ds\<rparr>))\<rparr>"
  have run: "trun (map Wait ds @ TSend True # later) ?new = trun later ?w"
    by (simp add: trun_Waits [OF assms(2)])
  have "resolved newChannel = None"
    by (simp add: resolved_def newChannel_def)
  then have "resolved (rc ?w) = Some True"
    by (simp add: NewReadyChannel_def resolved_Send)
  from trun_resolved [OF this, of later]
  have c: "map got (fst (trun later ?w)) = map (\<lambda>_. Some True) (filter isTReceive later)"
    and d: "\<forall>r\<in>set (fst (trun later ?w)). returnedAt r = calledAt r"
    and e: "resolved (rc (snd (trun later ?w))) = Some True"
    by simp_all
  show ?thesis
    unfolding run by (intro conjI a b' c d e)
qed

theorem timeout_resolves_false_witness:
  "map got (fst (trun [Wait 3, TReceive, Wait 100, TReceive] (NewReadyChannel 90 0)))
     = [Some False, Some False]
   \<and> list_all (\<lambda>r. returnedAt r \<le> calledAt r + 90)
        (fst (trun [Wait 3, TReceive, Wait 100, TReceive] (NewReadyChannel 90 0)))
   \<and> map got (fst (trun (map Wait [2, 5] @ TSend True # [TReceive, Wait 200, TSend False, TReceive])
                      (NewReadyChannel 90 0)))
     = [Some True, Some True]"
proof -
  have quiet_calls: "\<forall>c\<in>set [Wait 3, TReceive, Wait 100, TReceive]. \<not> isTSend c"
    by simp
  have early: "sum_list [2, 5] < (90::nat)"
    by simp
  from timeout_resolves_false [OF quiet_calls early,
      of 0 "[TReceive, Wait 200, TSend False, TReceive]"]
  show ?thesis
    by (simp add: list_all_iff)
qed


section \<open>managed: users and the names derived from them\<close>

text \<open>
  \<^verbatim>\<open>type User struct { UserID, Name, Domain, SiloIP string; Client k8sclient.K8sClient }\<close>

  Go strings are byte strings, as \<^typ>\<open>string\<close> is. The client handle plays no part in
  the names and is left out.
\<close>

record User =
  UserID :: string
  Name :: string
  Domain :: string
  SiloIP :: string

text \<open>
  \<open>strings.Cut(s, sep)\<close> for a separator of one byte: the text before the first \<open>sep\<close>,
  the text after it, and whether \<open>sep\<close> was found.
\<close>

fun Cut :: "string \<Rightarrow> char \<Rightarrow> string \<times> string \<times> bool" where
  "Cut [] sep = ([], [], False)"
| "Cut (c # cs) sep =
     (if c = sep then ([], cs, True)
      else (case Cut cs sep of
              (before, after, found) \<Rightarrow>
                if found then (c # before, after, True) else (c # cs, [], False)))"

definition NewUser :: "string \<Rightarrow> string \<Rightarrow> User" where
  "NewUser userID siloIP =
     (if userID = [] then \<lparr>UserID = [], Name = [], Domain = [], SiloIP = []\<rparr>
      else (case Cut userID (CHR ''@'') of
              (name, domain, _) \<Rightarrow>
                \<lparr>UserID = userID, Name = name, Domain = domain, SiloIP = siloIP\<rparr>))"

text \<open>
  \<open>strings.Replace(s, old, new, -1)\<close> for a pattern \<open>old\<close> of one byte: every occurrence
  of the byte is replaced.
\<close>

definition Replace :: "string \<Rightarrow> char \<Rightarrow> string \<Rightarrow> string" where
  "Replace s old new = concat (map (\<lambda>c. if c = old then new else [c]) s)"

definition GetUserString :: "User \<Rightarrow> string" where
  "GetUserString u =
     (let userString = Replace (UserID u) (CHR ''@'') ''-'';
          userString = Replace userString (CHR ''.'') ''-''
      in userString)"

definition GetStoragePVName :: "User \<Rightarrow> string" where
  "GetStoragePVName u = ''user-storage-'' @ GetUserString u"

text \<open>
  C6. The names are a function of the user identifier, but not an injective one: \<open>@\<close>,
  \<open>.\<close> and \<open>-\<close> all become \<open>-\<close>. The users \<open>john.doe@example.com\<close> and
  \<open>john@doe.example.com\<close> are different and get the same user string, and so the same
  name for their storage volume and claim, although the comments on both functions
  promise a unique string.
\<close>

theorem GetUserString_collision:
  "UserID (NewUser ''john.doe@example.com'' ''10.0.0.1'')
     \<noteq> UserID (NewUser ''john@doe.example.com'' ''10.0.0.1'')
   \<and> GetUserString (NewUser ''john.doe@example.com'' ''10.0.0.1'') = ''john-doe-example-com''
   \<and> GetUserString (NewUser ''john@doe.example.com'' ''10.0.0.1'') = ''john-doe-example-com''
   \<and> GetStoragePVName (NewUser ''john.doe@example.com'' ''10.0.0.1'')
     = GetStoragePVName (NewUser ''john@doe.example.com'' ''10.0.0.1'')"
  by (simp add: NewUser_def GetUserString_def GetStoragePVName_def Replace_def)


section \<open>The cluster's objects and the world around the backend\<close>

text \<open>
  The fields of the Kubernetes API objects that the code reads. An annotation map is a
  Go map; the list gives its entries in the order in which \<open>range\<close> walks them, which Go
  leaves open, so a statement about every list is a statement about every order.
\<close>

record Container =
  ContainerName :: string
  Image :: string
  ContainerPorts :: "32 word list"

record PodCondition =
  CondType :: string
  CondStatus :: string

record PodObject =
  PodName :: string
  Annotations :: "(string \<times> string) list"
  Containers :: "Container list"
  Conditions :: "PodCondition list"

text \<open>
  What the cluster answers to one remote execution: the error of
  \<open>remotecommand.NewSPDYExecutor\<close> if any, and otherwise what \<open>exec.Stream\<close> wrote to the
  two buffers and the error it returned. The answer depends on how many executions came
  before (a file may appear only after a while), on the pod, the container and the command.
\<close>

record Remote =
  executorErr :: "string option"
  streamOut :: string
  streamErrOut :: string
  streamErr :: "string option"

type_synonym cluster_exec = "nat \<Rightarrow> string \<Rightarrow> string \<Rightarrow> string list \<Rightarrow> Remote"

text \<open>
  The effects of the backend on the world: the remote executions it has made, each with
  the command and with what \<open>PodExec\<close> returned for it; the lines it has printed; the
  seconds it has slept.
\<close>

type_synonym exec_result = "string \<times> string \<times> string option"

record World =
  execLog :: "(string list \<times> exec_result) list"
  printed :: "string list"
  slept :: nat

text \<open>
  \<open>K8sClient.PodExec\<close>. \<open>pod.Spec.Containers[nContainer]\<close> panics when the index is out
  of range: \<open>None\<close>.
\<close>

definition PodExec ::
    "cluster_exec \<Rightarrow> string list \<Rightarrow> PodObject \<Rightarrow> nat \<Rightarrow> World \<Rightarrow> (exec_result \<times> World) option" where
  "PodExec remote command pod nContainer w =
     (if nContainer < length (Containers pod) then
        (let r = remote (length (execLog w)) (PodName pod)
                   (ContainerName (Containers pod ! nContainer)) command;
             res = (case executorErr r of
                      Some e \<Rightarrow> ([], [], Some (''Couldn't create executor: '' @ e))
                    | None \<Rightarrow>
                        (case streamErr r of
                           Some e \<Rightarrow> (streamOut r, streamErrOut r, Some (''Stream error: '' @ e))
                         | None \<Rightarrow> (streamOut r, streamErrOut r, None)))
         in Some (res, w\<lparr>execLog := execLog w @ [(command, res)]\<rparr>))
      else None)"

section \<open>managed: reading a file out of a pod\<close>

definition tokenByteLimit :: nat where
  "tokenByteLimit = 4096"

text \<open>
  \<open>Pod.getTmpFile\<close> returns a string and an error (\<open>None\<close> is \<open>nil\<close>).
  \<open>stdout.Read(readBytes)\<close> on a buffer of at least \<open>tokenByteLimit\<close> bytes fills the
  whole slice with the first \<open>tokenByteLimit\<close> bytes.
\<close>

definition getTmpFile ::
    "cluster_exec \<Rightarrow> PodObject \<Rightarrow> string \<Rightarrow> World \<Rightarrow> ((string \<times> string option) \<times> World) option" where
  "getTmpFile remote pod key w =
     (case PodExec remote [''cat'', ''/tmp/'' @ key] pod 0 w of
        None \<Rightarrow> None
      | Some ((stdout, stderr, err), w') \<Rightarrow>
          (case err of
             Some e \<Rightarrow>
               Some (([], Some (''Couldn't call pod exec for pod '' @ PodName pod @ '': '' @ e)), w')
           | None \<Rightarrow>
               if length stdout = 0
               then Some (([], Some (''Empty response. Stderr: '' @ stderr)), w')
               else (let readBytes = (if length stdout < tokenByteLimit then stdout
                                      else take tokenByteLimit stdout)
                     in Some ((readBytes, None), w'))))"

lemma PodExec_world:
  assumes "PodExec remote command pod n w = Some (res, w')"
  shows "w' = w\<lparr>execLog := execLog w @ [(command, res)]\<rparr>"
  using assms by (auto simp: PodExec_def Let_def split: if_splits)

lemma getTmpFile_cases:
  assumes "getTmpFile remote pod key w = Some ((s, err), w')"
  shows "\<exists>out errOut e.
           w' = w\<lparr>execLog := execLog w @ [([''cat'', ''/tmp/'' @ key], (out, errOut, e))]\<rparr>
           \<and> (if e = None \<and> out \<noteq> [] then err = None \<and> s = take tokenByteLimit out
               else err \<noteq> None \<and> s = [])"
proof -
  obtain out errOut e w1 where
    px: "PodExec remote [''cat'', ''/tmp/'' @ key] pod 0 w = Some ((out, errOut, e), w1)"
    using assms by (auto simp: getTmpFile_def split: option.splits)
  have w1: "w1 = w\<lparr>execLog := execLog w @ [([''cat'', ''/tmp/'' @ key], (out, errOut, e))]\<rparr>"
    by (rule PodExec_world [OF px])
  have "w' = w1"
    and "if e = None \<and> out \<noteq> [] then err = None \<and> s = take tokenByteLimit out
         else err \<noteq> None \<and> s = []"
    using assms unfolding getTmpFile_def px
    by (auto simp: Let_def split: option.splits if_splits)
  with w1 show ?thesis by blast
qed

lemma getTmpFile_bound:
  assumes "getTmpFile remote pod key w = Some ((s, err), w')"
  shows "length s \<le> tokenByteLimit"
  using getTmpFile_cases [OF assms] by (auto split: if_splits)

text \<open>
  C9. When the remote \<open>cat\<close> succeeds with the contents \<open>out\<close> on its standard output,
  \<open>getTmpFile\<close> returns the first 4096 bytes of \<open>out\<close>: never more than 4096 bytes,
  exactly the first 4096 of contents that are longer, and the whole of contents of 4096
  bytes or fewer. (Empty contents come back as the empty string, together with an error.)
\<close>

theorem getTmpFile_truncates:
  assumes "Containers pod \<noteq> []"
      and "executorErr (remote (length (execLog w)) (PodName pod)
             (ContainerName (Containers pod ! 0)) [''cat'', ''/tmp/'' @ key]) = None"
      and "streamErr (remote (length (execLog w)) (PodName pod)
             (ContainerName (Containers pod ! 0)) [''cat'', ''/tmp/'' @ key]) = None"
      and "streamOut (remote (length (execLog w)) (PodName pod)
             (ContainerName (Containers pod ! 0)) [''cat'', ''/tmp/'' @ key]) = out"
  shows "\<exists>err w'. getTmpFile remote pod key w = Some ((take 4096 out, err), w')
           \<and> (err = None \<longleftrightarrow> out \<noteq> [])
           \<and> length (take 4096 out) \<le> 4096
           \<and> (4096 < length out \<longrightarrow> length (take 4096 out) = 4096)
           \<and> (length out \<le> 4096 \<longrightarrow> take 4096 out = out)"
  using assms
  by (auto simp: getTmpFile_def PodExec_def Let_def tokenByteLimit_def)

theorem getTmpFile_truncates_witness:
  "\<exists>w'. getTmpFile
          (\<lambda>n pod container command.
             \<lparr>executorErr = None, streamOut = replicate 5000 (CHR ''a''),
              streamErrOut = [], streamErr = None\<rparr>)
          \<lparr>PodName = ''jupyter'', Annotations = [],
           Containers = [\<lparr>ContainerName = ''main'', Image = ''img'', ContainerPorts = []\<rparr>],
           Conditions = []\<rparr>
          ''token''
          \<lparr>execLog = [], printed = [], slept = 0\<rparr>
        = Some ((replicate 4096 (CHR ''a''), None), w')"
proof -
  let ?remote = "\<lambda>(n::nat) (pod::string) (container::string) (command::string list).
             \<lparr>executorErr = None, streamOut = replicate 5000 (CHR ''a''),
              streamErrOut = [], streamErr = None\<rparr>"
  let ?pod = "\<lparr>PodName = ''jupyter'', Annotations = [],
           Containers = [\<lparr>ContainerName = ''main'', Image = ''img'', ContainerPorts = []\<rparr>],
           Conditions = []\<rparr>"
  let ?w = "\<lparr>execLog = [], printed = [], slept = 0\<rparr>"
  have "Containers ?pod \<noteq> []"
    by simp
  from getTmpFile_truncates [of ?pod ?remote ?w "''token''" "replicate 5000 (CHR ''a'')", OF this]
  show ?thesis
    by auto
qed

end
